theory Spec2Isabelle
  imports Main
begin

section \<open>Characters and strings\<close>

text \<open>
  A string of the program is a list of its code units, modelled as \<^typ>\<open>string\<close>.
  The tables of the runtime that the program consults (the general category
  \<^verbatim>\<open>Lu\<close>, the white space class \<^verbatim>\<open>\s\<close> and the case mappings of
  \<^verbatim>\<open>toUpperCase\<close> and \<^verbatim>\<open>toLowerCase\<close>) are not part of the repository; they are
  given here on the ASCII range, where the case mappings act on one code unit at a
  time. The tables agree with the runtime on the strings of ASCII characters
  (\<open>isAscii\<close> below); a statement that depends on what the tables hold is made for
  such strings. A code unit above \<^verbatim>\<open>0x7F\<close> is carried as a symbol that has no
  case and is neither an uppercase letter nor white space.
\<close>

definition isLu :: "char \<Rightarrow> bool" where
  \<comment> \<open>\<^verbatim>\<open>\p{Lu}\<close>: the uppercase letters \<^verbatim>\<open>A\<close> to \<^verbatim>\<open>Z\<close>\<close>
  "isLu c \<longleftrightarrow> 65 \<le> (of_char c :: nat) \<and> (of_char c :: nat) \<le> 90"

definition isWhiteSpace :: "char \<Rightarrow> bool" where
  \<comment> \<open>\<^verbatim>\<open>\s\<close>: TAB, LF, VT, FF, CR and the space\<close>
  "isWhiteSpace c \<longleftrightarrow>
     (9 \<le> (of_char c :: nat) \<and> (of_char c :: nat) \<le> 13) \<or> (of_char c :: nat) = 32"

definition inClass :: "char \<Rightarrow> bool" where
  \<comment> \<open>the members of the class \<^verbatim>\<open>[\p{Lu}_\-\s]\<close>\<close>
  "inClass c \<longleftrightarrow> isLu c \<or> c = CHR ''_'' \<or> c = CHR ''-'' \<or> isWhiteSpace c"

definition notInClass :: "char \<Rightarrow> bool" where
  \<comment> \<open>the negated class \<^verbatim>\<open>[^\p{Lu}_\-\s]\<close>\<close>
  "notInClass c \<longleftrightarrow> \<not> inClass c"

definition toUpperChar :: "char \<Rightarrow> char" where
  "toUpperChar c =
     (if 97 \<le> (of_char c :: nat) \<and> (of_char c :: nat) \<le> 122
      then char_of ((of_char c :: nat) - 32) else c)"

definition toLowerChar :: "char \<Rightarrow> char" where
  "toLowerChar c =
     (if 65 \<le> (of_char c :: nat) \<and> (of_char c :: nat) \<le> 90
      then char_of ((of_char c :: nat) + 32) else c)"

definition toUpperCase :: "string \<Rightarrow> string" where
  "toUpperCase s = map toUpperChar s"

definition toLowerCase :: "string \<Rightarrow> string" where
  "toLowerCase s = map toLowerChar s"

section \<open>splitPieces\<close>

text \<open>
  The regular expression of \<^verbatim>\<open>splitPieces\<close> is
  \<^verbatim>\<open>[^\p{Lu}_\-\s]+|\p{Lu}+(?![^\p{Lu}_\-\s])|\p{Lu}[^\p{Lu}_\-\s]*\<close>.
  Each alternative is a function from the rest of the input at the current
  position to the matched text, \<open>None\<close> when the alternative fails there.
\<close>

definition alt1 :: "string \<Rightarrow> string option" where
  \<comment> \<open>\<^verbatim>\<open>[^\p{Lu}_\-\s]+\<close>: greedy, at least one character\<close>
  "alt1 s = (let m = takeWhile notInClass s in if m = [] then None else Some m)"

definition negLookahead :: "string \<Rightarrow> bool" where
  \<comment> \<open>\<^verbatim>\<open>(?![^\p{Lu}_\-\s])\<close>: holds at the end of the input and before a
      character of the class\<close>
  "negLookahead s = (case s of [] \<Rightarrow> True | c # _ \<Rightarrow> \<not> notInClass c)"

fun backtrack :: "nat \<Rightarrow> string \<Rightarrow> string option" where
  \<comment> \<open>the greedy \<^verbatim>\<open>\p{Lu}+\<close> gives characters back one at a time until the
      lookahead holds; it keeps at least one\<close>
  "backtrack 0 s = None"
| "backtrack (Suc k) s =
     (if negLookahead (drop (Suc k) s) then Some (take (Suc k) s) else backtrack k s)"

definition alt2 :: "string \<Rightarrow> string option" where
  \<comment> \<open>\<^verbatim>\<open>\p{Lu}+(?![^\p{Lu}_\-\s])\<close>\<close>
  "alt2 s = backtrack (length (takeWhile isLu s)) s"

definition alt3 :: "string \<Rightarrow> string option" where
  \<comment> \<open>\<^verbatim>\<open>\p{Lu}[^\p{Lu}_\-\s]*\<close>\<close>
  "alt3 s = (case s of [] \<Rightarrow> None
             | c # cs \<Rightarrow> if isLu c then Some (c # takeWhile notInClass cs) else None)"

definition regexp :: "string \<Rightarrow> string option" where
  \<comment> \<open>the match at the current position: the first alternative that succeeds\<close>
  "regexp s =
     (case alt1 s of Some m \<Rightarrow> Some m
      | None \<Rightarrow> (case alt2 s of Some m \<Rightarrow> Some m | None \<Rightarrow> alt3 s))"

function matchAll :: "string \<Rightarrow> string list" where
  \<comment> \<open>\<^verbatim>\<open>str.matchAll(regexp)\<close> with the global flag: where no alternative
      matches the search moves on by one character; after a match it resumes behind
      the match, and behind an empty match one character further\<close>
  "matchAll s =
     (if s = [] then []
      else (case regexp s of
              None \<Rightarrow> matchAll (tl s)
            | Some m \<Rightarrow> m # matchAll (drop (max 1 (length m)) s)))"
  by pat_completeness auto
termination
  by (relation "measure length") auto

declare matchAll.simps [simp del]

definition splitPieces :: "string \<Rightarrow> string list" where
  "splitPieces str = matchAll str"

section \<open>The formatters\<close>

datatype error = TypeError

datatype input = Str string | Arr "string list"

definition piecesOf :: "input \<Rightarrow> string list" where
  \<comment> \<open>\<^verbatim>\<open>Array.isArray(str) ? str : splitPieces(str)\<close>\<close>
  "piecesOf inp = (case inp of Arr p \<Rightarrow> p | Str s \<Rightarrow> splitPieces s)"

fun join :: "string \<Rightarrow> string list \<Rightarrow> string" where
  "join sep [] = []"
| "join sep [x] = x"
| "join sep (x # y # ys) = x @ sep @ join sep (y # ys)"

fun mapIdx :: "(string \<Rightarrow> nat \<Rightarrow> error + string) \<Rightarrow> nat \<Rightarrow> string list \<Rightarrow> error + string list" where
  \<comment> \<open>\<^verbatim>\<open>Array.prototype.map\<close> with a callback that may throw: the first throw
      ends the call\<close>
  "mapIdx f i [] = Inr []"
| "mapIdx f i (x # xs) =
     (case f x i of
        Inl e \<Rightarrow> Inl e
      | Inr y \<Rightarrow> (case mapIdx f (Suc i) xs of Inl e \<Rightarrow> Inl e | Inr ys \<Rightarrow> Inr (y # ys)))"

definition capitalize :: "string \<Rightarrow> error + string" where
  \<comment> \<open>\<^verbatim>\<open>s[0].toUpperCase() + s.slice(1).toLowerCase()\<close>; \<^verbatim>\<open>s[0]\<close> of the
      empty string is \<^verbatim>\<open>undefined\<close>, and calling its method throws\<close>
  "capitalize s =
     (case s of [] \<Rightarrow> Inl TypeError
      | c # cs \<Rightarrow> Inr (toUpperCase [c] @ toLowerCase cs))"

definition camelPiece :: "string \<Rightarrow> nat \<Rightarrow> error + string" where
  "camelPiece s i =
     (if i = 0 then Inr (toLowerCase s)
      else if toUpperCase s = s then Inr s
      else capitalize s)"

definition upperPiece :: "string \<Rightarrow> nat \<Rightarrow> error + string" where
  \<comment> \<open>the callback of \<^verbatim>\<open>titleCase\<close> and of \<^verbatim>\<open>pascalCase\<close>\<close>
  "upperPiece s i = (if toUpperCase s = s then Inr s else capitalize s)"

definition camelCase :: "input \<Rightarrow> error + string" where
  "camelCase str =
     (case mapIdx camelPiece 0 (piecesOf str) of
        Inl e \<Rightarrow> Inl e | Inr ys \<Rightarrow> Inr (join [] ys))"

definition snakeCase :: "input \<Rightarrow> error + string" where
  "snakeCase str = Inr (join ''_'' (map toLowerCase (piecesOf str)))"

definition kebabCase :: "input \<Rightarrow> error + string" where
  "kebabCase str = Inr (join ''-'' (map toLowerCase (piecesOf str)))"

definition titleCase :: "input \<Rightarrow> error + string" where
  "titleCase str =
     (case mapIdx upperPiece 0 (piecesOf str) of
        Inl e \<Rightarrow> Inl e | Inr ys \<Rightarrow> Inr (join '' '' ys))"

definition pascalCase :: "input \<Rightarrow> error + string" where
  "pascalCase str =
     (case mapIdx upperPiece 0 (piecesOf str) of
        Inl e \<Rightarrow> Inl e | Inr ys \<Rightarrow> Inr (join [] ys))"

definition constantCase :: "input \<Rightarrow> error + string" where
  "constantCase str = Inr (join ''_'' (map toUpperCase (piecesOf str)))"

section \<open>Vocabulary of the specification\<close>

definition isSeparator :: "char \<Rightarrow> bool" where
  \<comment> \<open>the characters of the class \<^verbatim>\<open>[\p{Lu}_\-\s]\<close> that are not uppercase
      letters: what the regular expression skips\<close>
  "isSeparator c \<longleftrightarrow> c = CHR ''_'' \<or> c = CHR ''-'' \<or> isWhiteSpace c"

definition isDelimiter :: "char \<Rightarrow> bool" where
  \<comment> \<open>the delimiters as the specification lists them: space, dash, underscore\<close>
  "isDelimiter c \<longleftrightarrow> c = CHR '' '' \<or> c = CHR ''-'' \<or> c = CHR ''_''"

definition isLowercase :: "char \<Rightarrow> bool" where
  \<comment> \<open>the lowercase letters \<^verbatim>\<open>a\<close> to \<^verbatim>\<open>z\<close>\<close>
  "isLowercase c \<longleftrightarrow> 97 \<le> (of_char c :: nat) \<and> (of_char c :: nat) \<le> 122"

definition isLetter :: "char \<Rightarrow> bool" where
  "isLetter c \<longleftrightarrow> isLu c \<or> isLowercase c"

definition isAscii :: "char \<Rightarrow> bool" where
  \<comment> \<open>the code units \<^verbatim>\<open>0x00\<close> to \<^verbatim>\<open>0x7F\<close>\<close>
  "isAscii c \<longleftrightarrow> (of_char c :: nat) < 128"

definition isDigit :: "char \<Rightarrow> bool" where
  "isDigit c \<longleftrightarrow> 48 \<le> (of_char c :: nat) \<and> (of_char c :: nat) \<le> 57"

fun splitOn :: "(char \<Rightarrow> bool) \<Rightarrow> string \<Rightarrow> string \<Rightarrow> string list" where
  \<comment> \<open>a scan that collects the current run in \<open>acc\<close> and closes it at each
      character of \<open>d\<close>; an empty run is not emitted\<close>
  "splitOn d acc [] = (if acc = [] then [] else [acc])"
| "splitOn d acc (c # cs) =
     (if d c then (if acc = [] then [] else [acc]) @ splitOn d [] cs
      else splitOn d (acc @ [c]) cs)"

definition maximalRuns :: "(char \<Rightarrow> bool) \<Rightarrow> string \<Rightarrow> string list" where
  \<comment> \<open>the maximal runs of characters outside \<open>d\<close>, from left to right\<close>
  "maximalRuns d s = splitOn d [] s"

definition rendered :: "string \<Rightarrow> string" where
  \<comment> \<open>the per-piece rule of the specification's table: a piece equal to its own
      uppercase form is kept, any other piece has its first character uppercased and
      its remainder lowercased\<close>
  "rendered s =
     (if toUpperCase s = s then s
      else (case s of [] \<Rightarrow> [] | c # cs \<Rightarrow> toUpperChar c # toLowerCase cs))"

definition camelSpec :: "string list \<Rightarrow> string" where
  "camelSpec p = (case p of [] \<Rightarrow> [] | x # xs \<Rightarrow> concat (toLowerCase x # map rendered xs))"

definition titleSpec :: "string list \<Rightarrow> string" where
  "titleSpec p = join '' '' (map rendered p)"

definition pascalSpec :: "string list \<Rightarrow> string" where
  "pascalSpec p = concat (map rendered p)"

definition stripUnderscores :: "string \<Rightarrow> string" where
  "stripUnderscores s = filter (\<lambda>c. c \<noteq> CHR ''_'') s"

section \<open>Characters\<close>

lemma isLu_not_sep: "isLu c \<Longrightarrow> \<not> isSeparator c"
  by (auto simp: isLu_def isSeparator_def isWhiteSpace_def)

lemma inClass_iff: "inClass c \<longleftrightarrow> isLu c \<or> isSeparator c"
  by (auto simp: inClass_def isSeparator_def)

lemma notInClass_iff: "notInClass c \<longleftrightarrow> \<not> isLu c \<and> \<not> isSeparator c"
  by (simp add: notInClass_def inClass_iff)

lemma upper_lower: "toUpperChar (toLowerChar c) = toUpperChar c"
  by (auto simp: toUpperChar_def toLowerChar_def)

lemma upper_upper: "toUpperChar (toUpperChar c) = toUpperChar c"
  by (auto simp: toUpperChar_def)

lemma upper_underscore: "toUpperChar c = CHR ''_'' \<longleftrightarrow> c = CHR ''_''"
  apply (auto simp: toUpperChar_def char_of_eq_iff take_bit_eq_mod)
  done

lemma lower_notLu: "\<not> isLu c \<Longrightarrow> toLowerChar c = c"
  by (auto simp: toLowerChar_def isLu_def)

lemma takeWhile_length_drop: "drop (length (takeWhile P s)) s = dropWhile P s"
  by (induction s) auto

section \<open>The regular expression at one position\<close>

lemma alt1_Some: "notInClass c \<Longrightarrow> alt1 (c # cs) = Some (c # takeWhile notInClass cs)"
  by (simp add: alt1_def)

lemma alt1_None: "\<not> notInClass c \<Longrightarrow> alt1 (c # cs) = None"
  by (simp add: alt1_def)

lemma backtrack_prefix: "backtrack k s = Some m \<Longrightarrow> k \<le> length s \<Longrightarrow> \<exists>j. 0 < j \<and> j \<le> k \<and> m = take j s"
  by (induction k) (auto split: if_splits intro: le_SucI)

lemma alt2_sep: "isSeparator c \<Longrightarrow> alt2 (c # cs) = None"
  using isLu_not_sep[of c] by (auto simp: alt2_def)

lemma alt3_sep: "isSeparator c \<Longrightarrow> alt3 (c # cs) = None"
  using isLu_not_sep[of c] by (auto simp: alt3_def)

lemma regexp_sep: "isSeparator c \<Longrightarrow> regexp (c # cs) = None"
  by (simp add: regexp_def alt1_None alt2_sep alt3_sep notInClass_iff)

lemma regexp_cont: "notInClass c \<Longrightarrow> regexp (c # cs) = Some (c # takeWhile notInClass cs)"
  by (simp add: regexp_def alt1_Some)

section \<open>The matches of a whole string\<close>

lemma matchAll_Nil: "matchAll [] = []"
  by (simp add: matchAll.simps)

lemma matchAll_sep: "isSeparator c \<Longrightarrow> matchAll (c # cs) = matchAll cs"
  by (simp add: matchAll.simps[of "c # cs"] regexp_sep)

lemma matchAll_cont: "notInClass c \<Longrightarrow>
   matchAll (c # cs) = (c # takeWhile notInClass cs) # matchAll (dropWhile notInClass cs)"
  by (simp add: matchAll.simps[of "c # cs"] regexp_cont takeWhile_length_drop)

lemma backtrack_butlast:
  assumes "\<not> negLookahead rest" and "isLu l"
  shows "backtrack (Suc (Suc (length r))) (c # r @ l # rest) = Some (c # r)"
proof -
  have "negLookahead (l # rest)"
    using assms(2) by (simp add: negLookahead_def notInClass_iff)
  then show ?thesis using assms(1) by simp
qed

lemma regexp_Lu_cases:
  assumes "isLu c"
  shows "regexp (c # cs) =
     (let run = c # takeWhile isLu cs; rest = dropWhile isLu cs in
      if negLookahead rest then Some run
      else if takeWhile isLu cs = [] then Some (c # takeWhile notInClass cs)
      else Some (butlast run))"
proof -
  let ?s = "c # cs"
  let ?n = "length (takeWhile isLu cs)"
  have a1: "alt1 ?s = None" using assms by (simp add: alt1_None notInClass_iff)
  have len: "length (takeWhile isLu ?s) = Suc ?n" using assms by simp
  have dr: "drop (Suc ?n) ?s = dropWhile isLu cs" by (simp add: takeWhile_length_drop)
  have tk: "take (Suc ?n) ?s = c # takeWhile isLu cs"
    by simp (metis takeWhile_dropWhile_id append_eq_conv_conj)
  show ?thesis
  proof (cases "negLookahead (dropWhile isLu cs)")
    case True
    then have "alt2 ?s = Some (c # takeWhile isLu cs)"
      unfolding alt2_def len using dr tk by simp
    then show ?thesis using a1 True by (simp add: regexp_def)
  next
    case False
    show ?thesis
    proof (cases "takeWhile isLu cs = []")
      case True
      then have "alt2 ?s = None" unfolding alt2_def len using False dr by simp
      then show ?thesis using a1 False True assms by (simp add: regexp_def alt3_def)
    next
      case nonempty: False
      then have pos: "0 < ?n" by simp
      obtain r l where rl: "takeWhile isLu cs = r @ [l]"
        using nonempty by (cases "takeWhile isLu cs" rule: rev_cases) auto
      have "l \<in> set (takeWhile isLu cs)" using rl by simp
      then have l: "isLu l" by (rule set_takeWhileD[THEN conjunct2])
      have cs: "cs = r @ l # dropWhile isLu cs"
        using takeWhile_dropWhile_id[of isLu cs] rl by simp
      have "backtrack (Suc (Suc (length r))) (c # r @ l # dropWhile isLu cs) = Some (c # r)"
        using False l by (rule backtrack_butlast)
      then have "alt2 ?s = Some (c # r)"
        unfolding alt2_def len using cs rl by simp
      then show ?thesis using a1 False nonempty rl by (simp add: regexp_def)
    qed
  qed
qed


lemma alt2_Some:
  assumes "alt2 s = Some m"
  shows "m \<noteq> [] \<and> (\<exists>rest. s = m @ rest) \<and> (\<forall>c\<in>set m. isLu c)"
proof -
  let ?n = "length (takeWhile isLu s)"
  have le: "?n \<le> length s" by (rule length_takeWhile_le)
  from assms obtain j where j: "0 < j" "j \<le> ?n" "m = take j s"
    unfolding alt2_def using backtrack_prefix[OF _ le] by blast
  have "take j s = take j (takeWhile isLu s)"
    using j(2) by (metis append_eq_conv_conj takeWhile_dropWhile_id take_take min.absorb1)
  then have "set m \<subseteq> set (takeWhile isLu s)"
    using j(3) by (metis set_take_subset)
  then have "\<forall>c\<in>set m. isLu c" by (auto dest: set_takeWhileD)
  moreover have "m \<noteq> []" using j le by auto
  moreover have "s = m @ drop j s" using j(3) by simp
  ultimately show ?thesis by blast
qed

lemma regexp_Some:
  assumes "regexp s = Some m"
  shows "m \<noteq> [] \<and> (\<exists>rest. s = m @ rest) \<and> (\<forall>c\<in>set m. \<not> isSeparator c)"
proof (cases "alt1 s")
  case (Some a)
  then have m: "m = takeWhile notInClass s" "m \<noteq> []"
    using assms by (auto simp: regexp_def alt1_def Let_def split: if_splits)
  have "s = m @ dropWhile notInClass s" using m by simp
  moreover have "\<forall>c\<in>set m. \<not> isSeparator c"
    using m(1) by (auto dest: set_takeWhileD simp: notInClass_iff)
  ultimately show ?thesis using m(2) by blast
next
  case None
  show ?thesis
  proof (cases "alt2 s")
    case (Some a)
    then have "alt2 s = Some m" using assms None by (simp add: regexp_def)
    from alt2_Some[OF this] show ?thesis by (auto dest: isLu_not_sep)
  next
    case n2: None
    then have a3: "alt3 s = Some m" using assms None by (simp add: regexp_def)
    then obtain c cs where s: "s = c # cs" "isLu c" "m = c # takeWhile notInClass cs"
      by (auto simp: alt3_def split: list.splits if_splits)
    have "s = m @ dropWhile notInClass cs" using s by simp
    moreover have "\<forall>x\<in>set m. \<not> isSeparator x"
      using s by (auto dest: set_takeWhileD isLu_not_sep simp: notInClass_iff)
    ultimately show ?thesis using s(3) by blast
  qed
qed

lemma regexp_None:
  assumes "regexp (c # cs) = None"
  shows "isSeparator c"
proof (rule ccontr)
  assume ns: "\<not> isSeparator c"
  show False
  proof (cases "isLu c")
    case True
    from regexp_Lu_cases[OF this, of cs] assms show False
      by (simp add: Let_def split: if_splits)
  next
    case False
    then have "notInClass c" using ns by (simp add: notInClass_iff)
    from regexp_cont[OF this, of cs] assms show False by simp
  qed
qed

lemma matchAll_pieces:
  "m \<in> set (matchAll s) \<Longrightarrow> m \<noteq> [] \<and> (\<forall>c\<in>set m. \<not> isSeparator c)"
proof (induction s rule: matchAll.induct)
  case (1 s)
  show ?case
  proof (cases "s = []")
    case True
    then show ?thesis using "1.prems" by (simp add: matchAll.simps)
  next
    case ne: False
    show ?thesis
    proof (cases "regexp s")
      case None
      then have "matchAll s = matchAll (tl s)" using ne by (simp add: matchAll.simps[of s])
      then show ?thesis using "1.IH"(1)[OF ne None] "1.prems" by simp
    next
      case (Some a)
      then have eq: "matchAll s = a # matchAll (drop (max 1 (length a)) s)"
        using ne by (simp add: matchAll.simps[of s])
      show ?thesis
      proof (cases "m = a")
        case True
        then show ?thesis using regexp_Some[OF Some] by simp
      next
        case False
        then have "m \<in> set (matchAll (drop (max 1 (length a)) s))"
          using eq "1.prems" by simp
        then show ?thesis using "1.IH"(2)[OF ne Some] by simp
      qed
    qed
  qed
qed

lemma matchAll_concat:
  "concat (matchAll s) = filter (\<lambda>c. \<not> isSeparator c) s"
proof (induction s rule: matchAll.induct)
  case (1 s)
  show ?case
  proof (cases "s = []")
    case True
    then show ?thesis by (simp add: matchAll.simps)
  next
    case ne: False
    then obtain c cs where s: "s = c # cs" by (cases s) auto
    show ?thesis
    proof (cases "regexp s")
      case None
      then have eq: "matchAll s = matchAll (tl s)" using ne by (simp add: matchAll.simps[of s])
      have "isSeparator c" using None s regexp_None by simp
      then show ?thesis using "1.IH"(1)[OF ne None] eq s by simp
    next
      case (Some a)
      then have eq: "matchAll s = a # matchAll (drop (max 1 (length a)) s)"
        using ne by (simp add: matchAll.simps[of s])
      from regexp_Some[OF Some] obtain rest where
        a: "a \<noteq> []" "s = a @ rest" "\<forall>c\<in>set a. \<not> isSeparator c" by blast
      have mx: "max 1 (length a) = length a" using a(1) by (cases a) auto
      have dr: "drop (max 1 (length a)) s = rest" unfolding mx using a(2) by simp
      have "filter (\<lambda>c. \<not> isSeparator c) a = a" using a(3) by (simp add: filter_id_conv)
      then show ?thesis using "1.IH"(2)[OF ne Some] eq dr a(2) by simp
    qed
  qed
qed




section \<open>The formatters on an array of pieces\<close>

lemma delimiter_separator: "isDelimiter c \<Longrightarrow> isSeparator c"
  by (auto simp: isDelimiter_def isSeparator_def isWhiteSpace_def)

lemma letter_digit_separator:
  "isLetter c \<or> isDigit c \<or> isDelimiter c \<Longrightarrow> isSeparator c \<longleftrightarrow> isDelimiter c"
  by (auto simp: isLetter_def isLu_def isLowercase_def isDigit_def isDelimiter_def
      isSeparator_def isWhiteSpace_def)

lemma join_empty: "join [] xs = concat xs"
  by (induction "[] :: string" xs rule: join.induct) auto

lemma upperPiece_rendered: "upperPiece s i = Inr (rendered s)"
  by (cases s) (auto simp: upperPiece_def rendered_def capitalize_def toUpperCase_def)

lemma camelPiece_first: "camelPiece s 0 = Inr (toLowerCase s)"
  by (simp add: camelPiece_def)

lemma camelPiece_later: "camelPiece s (Suc i) = Inr (rendered s)"
  by (cases s) (auto simp: camelPiece_def rendered_def capitalize_def toUpperCase_def)

lemma mapIdx_upperPiece: "mapIdx upperPiece i xs = Inr (map rendered xs)"
  by (induction xs arbitrary: i) (simp_all add: upperPiece_rendered)

lemma mapIdx_camelPiece_later: "mapIdx camelPiece (Suc i) xs = Inr (map rendered xs)"
  by (induction xs arbitrary: i) (simp_all add: camelPiece_later)

lemma camelCase_Arr: "camelCase (Arr p) = Inr (camelSpec p)"
  by (cases p)
    (simp_all add: camelCase_def piecesOf_def camelSpec_def camelPiece_first
      mapIdx_camelPiece_later join_empty)

lemma titleCase_Arr: "titleCase (Arr p) = Inr (titleSpec p)"
  by (simp add: titleCase_def piecesOf_def titleSpec_def mapIdx_upperPiece)

lemma pascalCase_Arr: "pascalCase (Arr p) = Inr (pascalSpec p)"
  by (simp add: pascalCase_def piecesOf_def pascalSpec_def mapIdx_upperPiece join_empty)

lemma toUpperCase_no_lowercase: "\<forall>c\<in>set s. \<not> isLowercase c \<Longrightarrow> toUpperCase s = s"
  unfolding toUpperCase_def by (rule map_idI) (auto simp: isLowercase_def toUpperChar_def)

lemma rendered_no_letters: "\<forall>c\<in>set s. \<not> isLetter c \<Longrightarrow> rendered s = s"
  by (simp add: rendered_def toUpperCase_no_lowercase isLetter_def)

lemma toUpperCase_rendered: "toUpperCase (rendered s) = toUpperCase s"
  by (cases s) (auto simp: rendered_def toUpperCase_def toLowerCase_def upper_upper upper_lower)

lemma toUpperCase_toLowerCase: "toUpperCase (toLowerCase s) = toUpperCase s"
  by (simp add: toUpperCase_def toLowerCase_def upper_lower)

lemma toUpperCase_concat: "toUpperCase (concat xs) = concat (map toUpperCase xs)"
  by (induction xs) (simp_all add: toUpperCase_def)

lemma toUpperCase_append: "toUpperCase (a @ b) = toUpperCase a @ toUpperCase b"
  by (simp add: toUpperCase_def)

lemma toUpperCase_camelSpec: "toUpperCase (camelSpec p) = concat (map toUpperCase p)"
proof (cases p)
  case Nil
  then show ?thesis by (simp add: camelSpec_def toUpperCase_def)
next
  case (Cons x xs)
  show ?thesis
    using Cons
    by (simp add: camelSpec_def toUpperCase_append toUpperCase_concat toUpperCase_toLowerCase
        toUpperCase_rendered o_def)
qed

lemma strip_append: "stripUnderscores (a @ b) = stripUnderscores a @ stripUnderscores b"
  by (simp add: stripUnderscores_def)

lemma strip_upper: "CHR ''_'' \<notin> set s \<Longrightarrow> stripUnderscores (toUpperCase s) = toUpperCase s"
  by (auto simp: stripUnderscores_def toUpperCase_def filter_id_conv upper_underscore)

lemma strip_join:
  "\<forall>s\<in>set p. CHR ''_'' \<notin> set s \<Longrightarrow>
   stripUnderscores (join ''_'' (map toUpperCase p)) = concat (map toUpperCase p)"
proof (induction p rule: induct_list012)
  case 1
  show ?case by (simp add: stripUnderscores_def)
next
  case (2 x)
  then show ?case by (simp add: strip_upper)
next
  case (3 x y zs)
  then have "stripUnderscores (join ''_'' (map toUpperCase (y # zs))) = concat (map toUpperCase (y # zs))"
    by simp
  moreover have "stripUnderscores (CHR ''_'' # r) = stripUnderscores r" for r
    by (simp add: stripUnderscores_def)
  ultimately show ?case using 3(3) by (simp add: strip_append strip_upper)
qed

lemma matchAll_delimiters: "\<forall>c\<in>set s. isDelimiter c \<Longrightarrow> matchAll s = []"
  by (induction s) (simp_all add: matchAll_Nil matchAll_sep delimiter_separator)

section \<open>Runs between separators and words joined by dashes\<close>

lemma splitOn_runs:
  "splitOn d acc s =
     (if acc @ takeWhile (\<lambda>c. \<not> d c) s = [] then [] else [acc @ takeWhile (\<lambda>c. \<not> d c) s]) @
     (case dropWhile (\<lambda>c. \<not> d c) s of [] \<Rightarrow> [] | x # rest \<Rightarrow> splitOn d [] rest)"
  by (induction s arbitrary: acc) auto

lemma notInClass_no_Lu:
  "\<forall>c\<in>set s. \<not> isLu c \<Longrightarrow> takeWhile notInClass s = takeWhile (\<lambda>c. \<not> isSeparator c) s \<and>
     dropWhile notInClass s = dropWhile (\<lambda>c. \<not> isSeparator c) s"
  by (induction s) (auto simp: notInClass_iff)

lemma matchAll_no_Lu:
  "\<forall>c\<in>set s. \<not> isLu c \<Longrightarrow> matchAll s = splitOn isSeparator [] s"
proof (induction s rule: length_induct)
  case (1 s)
  show ?case
  proof (cases s)
    case Nil
    then show ?thesis by (simp add: matchAll_Nil)
  next
    case (Cons c cs)
    have cs: "\<forall>x\<in>set cs. \<not> isLu x" and c: "\<not> isLu c" using "1.prems" Cons by auto
    show ?thesis
    proof (cases "isSeparator c")
      case True
      have "matchAll cs = splitOn isSeparator [] cs"
        using "1.IH" cs Cons by simp
      then show ?thesis using True Cons by (simp add: matchAll_sep)
    next
      case False
      then have nc: "notInClass c" using c by (simp add: notInClass_iff)
      let ?r = "dropWhile (\<lambda>c. \<not> isSeparator c) cs"
      have tw: "takeWhile notInClass cs = takeWhile (\<lambda>c. \<not> isSeparator c) cs"
        and dw: "dropWhile notInClass cs = ?r"
        using notInClass_no_Lu[OF cs] by auto
      have rest: "matchAll ?r = (case ?r of [] \<Rightarrow> [] | x # rest \<Rightarrow> splitOn isSeparator [] rest)"
      proof (cases ?r)
        case Nil
        show ?thesis unfolding Nil by (simp add: matchAll_Nil)
      next
        case (Cons x rest)
        then have "x \<in> set ?r" by simp
        have x: "isSeparator x" using Cons hd_dropWhile[of "\<lambda>c. \<not> isSeparator c" cs] by auto
        have "set rest \<subseteq> set cs"
          using Cons set_dropWhileD[of _ "\<lambda>c. \<not> isSeparator c" cs] by auto
        then have nl: "\<forall>y\<in>set rest. \<not> isLu y" using cs by auto
        have "length ?r \<le> length cs" by (rule length_dropWhile_le)
        then have "length rest < length s" using Cons \<open>s = c # cs\<close> by simp
        then have "matchAll rest = splitOn isSeparator [] rest" using "1.IH" nl by simp
        then show ?thesis unfolding Cons using x by (simp add: matchAll_sep)
      qed
      have "matchAll s = (c # takeWhile (\<lambda>c. \<not> isSeparator c) cs) # matchAll ?r"
        using Cons nc tw dw by (simp add: matchAll_cont)
      moreover have "splitOn isSeparator [] s =
          [c # takeWhile (\<lambda>c. \<not> isSeparator c) cs] @
          (case ?r of [] \<Rightarrow> [] | x # rest \<Rightarrow> splitOn isSeparator [] rest)"
        using False Cons by (subst splitOn_runs) simp
      ultimately show ?thesis using rest by simp
    qed
  qed
qed

lemma matchAll_word:
  assumes "x \<noteq> []" and "\<forall>c\<in>set x. notInClass c" and "negLookahead r"
  shows "matchAll (x @ r) = x # matchAll r"
proof -
  obtain c cs where x: "x = c # cs" using assms(1) by (cases x) auto
  have c: "notInClass c" and cs: "\<forall>y\<in>set cs. notInClass y" using assms(2) x by simp_all
  have r: "takeWhile notInClass r = [] \<and> dropWhile notInClass r = r"
    using assms(3) by (cases r) (simp_all add: negLookahead_def)
  have tw: "takeWhile notInClass (cs @ r) = cs"
    using cs r by simp
  have dw: "dropWhile notInClass (cs @ r) = r"
    using cs r by simp
  have "matchAll (c # cs @ r) =
      (c # takeWhile notInClass (cs @ r)) # matchAll (dropWhile notInClass (cs @ r))"
    using c by (rule matchAll_cont)
  then show ?thesis unfolding tw dw x by simp
qed

lemma matchAll_word_last:
  assumes "x \<noteq> []" and "\<forall>c\<in>set x. notInClass c"
  shows "matchAll x = [x]"
  using matchAll_word [OF assms, of "[]"] by (simp add: negLookahead_def matchAll_Nil)

lemma matchAll_word_dash:
  assumes "x \<noteq> []" and "\<forall>c\<in>set x. notInClass c"
  shows "matchAll (x @ CHR ''-'' # r) = x # matchAll r"
proof -
  have "negLookahead (CHR ''-'' # r)"
    by (simp add: negLookahead_def notInClass_def inClass_def)
  then have "matchAll (x @ CHR ''-'' # r) = x # matchAll (CHR ''-'' # r)"
    using assms by (simp add: matchAll_word)
  then show ?thesis by (simp add: matchAll_sep isSeparator_def)
qed

lemma matchAll_join_dash:
  "\<forall>s\<in>set p. s \<noteq> [] \<and> (\<forall>c\<in>set s. notInClass c) \<Longrightarrow> matchAll (join ''-'' p) = p"
proof (induction p rule: induct_list012)
  case 1
  show ?case by (simp add: matchAll_Nil)
next
  case (2 x)
  then show ?case by (simp add: matchAll_word_last)
next
  case (3 x y zs)
  then have "matchAll (join ''-'' (y # zs)) = y # zs" by simp
  then show ?case using 3(3) by (simp add: matchAll_word_dash)
qed

lemma toLowerCase_no_Lu: "\<forall>c\<in>set s. \<not> isLu c \<Longrightarrow> toLowerCase s = s"
  unfolding toLowerCase_def by (rule map_idI) (simp add: lower_notLu)

lemma lowercase_notInClass: "isLowercase c \<Longrightarrow> notInClass c"
  by (auto simp: isLowercase_def notInClass_def inClass_def isLu_def isWhiteSpace_def)

section \<open>The claims\<close>



text \<open>
  Claim C2. For every input, each piece that \<^verbatim>\<open>splitPieces\<close> returns is non-empty
  (so consecutive delimiters produce no empty piece) and contains no space, dash or
  underscore. For an input made of letters, digits and delimiters only, the pieces
  concatenated in their order are the input with its delimiters removed.
\<close>

theorem splitPieces_pieces_cover:
  "(\<forall>m\<in>set (splitPieces s). m \<noteq> [] \<and> (\<forall>c\<in>set m. \<not> isDelimiter c)) \<and>
   ((\<forall>c\<in>set s. isLetter c \<or> isDigit c \<or> isDelimiter c) \<longrightarrow>
      concat (splitPieces s) = filter (\<lambda>c. \<not> isDelimiter c) s)"
proof (intro conjI impI ballI)
  fix m assume "m \<in> set (splitPieces s)"
  then have "m \<in> set (matchAll s)" by (simp only: splitPieces_def)
  then show "m \<noteq> []" by (simp add: matchAll_pieces)
next
  fix m c assume "m \<in> set (splitPieces s)" and c: "c \<in> set m"
  then have "m \<in> set (matchAll s)" by (simp only: splitPieces_def)
  then have "\<not> isSeparator c" using c matchAll_pieces by blast
  then show "\<not> isDelimiter c" using delimiter_separator by blast
next
  assume "\<forall>c\<in>set s. isLetter c \<or> isDigit c \<or> isDelimiter c"
  then have "filter (\<lambda>c. \<not> isSeparator c) s = filter (\<lambda>c. \<not> isDelimiter c) s"
    by (intro filter_cong refl) (simp add: letter_digit_separator)
  then show "concat (splitPieces s) = filter (\<lambda>c. \<not> isDelimiter c) s"
    by (simp add: splitPieces_def matchAll_concat)
qed

theorem splitPieces_pieces_cover_witness:
  "list_all (\<lambda>c. isLetter c \<or> isDigit c \<or> isDelimiter c) ''get__HTTP2 x-Y'' \<and>
   list_all (\<lambda>m. m \<noteq> [] \<and> list_all (\<lambda>c. \<not> isDelimiter c) m) (splitPieces ''get__HTTP2 x-Y'') \<and>
   concat (splitPieces ''get__HTTP2 x-Y'') = filter (\<lambda>c. \<not> isDelimiter c) ''get__HTTP2 x-Y''"
proof -
  have h: "\<forall>c\<in>set ''get__HTTP2 x-Y''. isLetter c \<or> isDigit c \<or> isDelimiter c"
    by (simp add: isLetter_def isLu_def isLowercase_def isDigit_def isDelimiter_def)
  show ?thesis
    using h splitPieces_pieces_cover [of "''get__HTTP2 x-Y''"]
    by (simp only: list_all_iff) blast
qed

text \<open>
  Claim C3. Each of the six formatters gives on a string \<open>s\<close> what it gives on the
  array \<^verbatim>\<open>splitPieces(s)\<close>. On an array \<open>p\<close> the result is computed from the
  elements of \<open>p\<close> as they are, with no further splitting and no removal of
  delimiters: \<^verbatim>\<open>snakeCase(p)\<close> is the elements lowercased and joined with an
  underscore, also when an element contains spaces, dashes or underscores.
\<close>

theorem formatters_string_or_array:
  "camelCase (Str s) = camelCase (Arr (splitPieces s)) \<and>
   snakeCase (Str s) = snakeCase (Arr (splitPieces s)) \<and>
   kebabCase (Str s) = kebabCase (Arr (splitPieces s)) \<and>
   titleCase (Str s) = titleCase (Arr (splitPieces s)) \<and>
   pascalCase (Str s) = pascalCase (Arr (splitPieces s)) \<and>
   constantCase (Str s) = constantCase (Arr (splitPieces s)) \<and>
   snakeCase (Arr p) = Inr (join ''_'' (map toLowerCase p)) \<and>
   kebabCase (Arr p) = Inr (join ''-'' (map toLowerCase p)) \<and>
   constantCase (Arr p) = Inr (join ''_'' (map toUpperCase p)) \<and>
   camelCase (Arr p) = Inr (camelSpec p) \<and>
   titleCase (Arr p) = Inr (titleSpec p) \<and>
   pascalCase (Arr p) = Inr (pascalSpec p) \<and>
   snakeCase (Arr [''a b'', ''C-d_E'']) = Inr ''a b_c-d_e''"
proof (intro conjI)
  show "camelCase (Arr p) = Inr (camelSpec p)"
    by (rule camelCase_Arr)
  show "titleCase (Arr p) = Inr (titleSpec p)"
    by (rule titleCase_Arr)
  show "pascalCase (Arr p) = Inr (pascalSpec p)"
    by (rule pascalCase_Arr)
  show "snakeCase (Arr [''a b'', ''C-d_E'']) = Inr ''a b_c-d_e''"
    by code_simp
qed (simp_all add: camelCase_def snakeCase_def kebabCase_def titleCase_def pascalCase_def
    constantCase_def piecesOf_def)

text \<open>
  Claim C4. For every sequence \<open>p\<close> of non-empty pieces, \<^verbatim>\<open>camelCase(p)\<close> is the
  first piece lowercased as a whole (an acronym included), followed by each later
  piece, kept when it equals its own uppercase form and otherwise given an uppercase
  first character and a lowercase remainder; nothing stands between the pieces.
\<close>

theorem camelCase_of_pieces:
  "(\<forall>s\<in>set p. s \<noteq> []) \<longrightarrow> camelCase (Arr p) = Inr (camelSpec p)"
  by (simp add: camelCase_Arr)

theorem camelCase_of_pieces_witness:
  "list_all (\<lambda>s. s \<noteq> []) [''URL'', ''parser'', ''API'', ''v2''] \<and>
   camelCase (Arr [''URL'', ''parser'', ''API'', ''v2'']) = Inr ''urlParserAPIV2''"
proof -
  have h: "\<forall>s\<in>set [''URL'', ''parser'', ''API'', ''v2'']. s \<noteq> []"
    by simp
  have "camelSpec [''URL'', ''parser'', ''API'', ''v2''] = ''urlParserAPIV2''"
    by code_simp
  then show ?thesis
    using h camelCase_of_pieces [of "[''URL'', ''parser'', ''API'', ''v2'']"] by simp
qed

text \<open>
  Claim C5. For every sequence \<open>p\<close> of non-empty pieces, \<^verbatim>\<open>titleCase(p)\<close> keeps each
  piece that equals its own uppercase form and gives every other piece an uppercase
  first character and a lowercase remainder, and joins the results with one space;
  \<^verbatim>\<open>pascalCase(p)\<close> renders the pieces in the same way and joins them with the
  empty string. A piece of ASCII characters without letters, such as a run of digits,
  passes through unchanged, and the first piece is not lowercased.
\<close>

theorem titleCase_pascalCase_of_pieces:
  "((\<forall>s\<in>set p. s \<noteq> []) \<longrightarrow>
      titleCase (Arr p) = Inr (titleSpec p) \<and> pascalCase (Arr p) = Inr (pascalSpec p)) \<and>
   (d \<noteq> [] \<and> (\<forall>c\<in>set d. isAscii c \<and> \<not> isLetter c) \<longrightarrow>
      titleCase (Arr [d]) = Inr d \<and> pascalCase (Arr [d]) = Inr d) \<and>
   titleCase (Arr [''URL'', ''parser'']) = Inr ''URL Parser'' \<and>
   pascalCase (Arr [''URL'', ''parser'']) = Inr ''URLParser''"
proof (intro conjI impI)
  assume "d \<noteq> [] \<and> (\<forall>c\<in>set d. isAscii c \<and> \<not> isLetter c)"
  then have r: "rendered d = d" by (simp add: rendered_no_letters)
  show "titleCase (Arr [d]) = Inr d"
    by (simp add: titleCase_Arr titleSpec_def r)
  show "pascalCase (Arr [d]) = Inr d"
    by (simp add: pascalCase_Arr pascalSpec_def r)
next
  show "titleCase (Arr [''URL'', ''parser'']) = Inr ''URL Parser''"
    by code_simp
  show "pascalCase (Arr [''URL'', ''parser'']) = Inr ''URLParser''"
    by code_simp
qed (simp_all add: titleCase_Arr pascalCase_Arr)

theorem titleCase_pascalCase_of_pieces_witness:
  "list_all (\<lambda>s. s \<noteq> []) [''hello'', ''WORLD'', ''42'', ''fooBar''] \<and>
   titleCase (Arr [''hello'', ''WORLD'', ''42'', ''fooBar'']) = Inr ''Hello WORLD 42 Foobar'' \<and>
   pascalCase (Arr [''hello'', ''WORLD'', ''42'', ''fooBar'']) = Inr ''HelloWORLD42Foobar'' \<and>
   ''42'' \<noteq> [] \<and> list_all (\<lambda>c. isAscii c \<and> \<not> isLetter c) ''42'' \<and>
   titleCase (Arr [''42'']) = Inr ''42'' \<and> pascalCase (Arr [''42'']) = Inr ''42''"
proof -
  let ?p = "[''hello'', ''WORLD'', ''42'', ''fooBar'']"
  have h: "\<forall>s\<in>set ?p. s \<noteq> []"
    by simp
  have d: "''42'' \<noteq> [] \<and> (\<forall>c\<in>set ''42''. isAscii c \<and> \<not> isLetter c)"
    by (simp add: isAscii_def isLetter_def isLu_def isLowercase_def)
  have t: "titleSpec ?p = ''Hello WORLD 42 Foobar''"
    by code_simp
  have q: "pascalSpec ?p = ''HelloWORLD42Foobar''"
    by code_simp
  show ?thesis
    using h d t q titleCase_pascalCase_of_pieces [of ?p "''42''"]
    by (simp only: list_all_iff) simp
qed

text \<open>
  Claim C6, as amended. On strings of ASCII characters the characters that separate
  pieces are the white space characters of \<^verbatim>\<open>\s\<close> (the space, and also TAB, LF,
  VT, FF and CR), the dash and the underscore. For every input of ASCII characters
  without uppercase letters, \<^verbatim>\<open>splitPieces\<close> returns the maximal runs of characters
  other than these, each run one piece; every ASCII character that is not one of
  these stays inside its piece.
\<close>

theorem splitPieces_runs_between_separators:
  "(\<forall>c\<in>set s. isAscii c \<and> \<not> isLu c) \<longrightarrow> splitPieces s = maximalRuns isSeparator s"
  by (simp add: splitPieces_def maximalRuns_def matchAll_no_Lu)

theorem splitPieces_runs_between_separators_witness:
  "list_all (\<lambda>c. isAscii c \<and> \<not> isLu c)
     [CHR ''a'', CHR ''_'', CHR ''b'', CHR 0x09, CHR ''c'', CHR '' '', CHR ''-'', CHR ''4'', CHR 0x0A, CHR ''.''] \<and>
   splitPieces [CHR ''a'', CHR ''_'', CHR ''b'', CHR 0x09, CHR ''c'', CHR '' '', CHR ''-'', CHR ''4'', CHR 0x0A, CHR ''.''] =
     maximalRuns isSeparator
       [CHR ''a'', CHR ''_'', CHR ''b'', CHR 0x09, CHR ''c'', CHR '' '', CHR ''-'', CHR ''4'', CHR 0x0A, CHR ''.''] \<and>
   maximalRuns isSeparator
       [CHR ''a'', CHR ''_'', CHR ''b'', CHR 0x09, CHR ''c'', CHR '' '', CHR ''-'', CHR ''4'', CHR 0x0A, CHR ''.''] =
     [''a'', ''b'', ''c'', ''4'', ''.'']"
proof -
  let ?s = "[CHR ''a'', CHR ''_'', CHR ''b'', CHR 0x09, CHR ''c'', CHR '' '', CHR ''-'', CHR ''4'', CHR 0x0A, CHR ''.'']"
  have h: "\<forall>c\<in>set ?s. isAscii c \<and> \<not> isLu c"
    by (simp add: isAscii_def isLu_def)
  have r: "maximalRuns isSeparator ?s = [''a'', ''b'', ''c'', ''4'', ''.'']"
    by code_simp
  show ?thesis
    using h r splitPieces_runs_between_separators [of ?s]
    by (simp only: list_all_iff)
qed

text \<open>
  Claim C6 as the specification states it, with space, dash and underscore as the only
  delimiters, fails on a string with a TAB: the string has no uppercase letter, its one
  maximal run between those delimiters is the whole string, and \<^verbatim>\<open>splitPieces\<close>
  returns two pieces.
\<close>

theorem splitPieces_tab_counterexample:
  "list_all isAscii [CHR ''a'', CHR 0x09, CHR ''b''] \<and>
   \<not> isLu (CHR ''a'') \<and> \<not> isLu (CHR 0x09) \<and> \<not> isLu (CHR ''b'') \<and>
   maximalRuns isDelimiter [CHR ''a'', CHR 0x09, CHR ''b''] = [[CHR ''a'', CHR 0x09, CHR ''b'']] \<and>
   splitPieces [CHR ''a'', CHR 0x09, CHR ''b''] = [''a'', ''b'']"
proof (intro conjI)
  show "maximalRuns isDelimiter [CHR ''a'', CHR 0x09, CHR ''b''] = [[CHR ''a'', CHR 0x09, CHR ''b'']]"
    by code_simp
  show "splitPieces [CHR ''a'', CHR 0x09, CHR ''b''] = [''a'', ''b'']"
    by code_simp
qed (simp_all add: isLu_def isAscii_def)

text \<open>
  Claim C7. \<^verbatim>\<open>splitPieces\<close> returns a list of pieces for every input (it is a total
  function: the search for matches ends on every string). It returns no piece for the
  empty string and for a string of delimiters, and each of the six formatters returns
  the empty string for the empty string.
\<close>

theorem splitPieces_and_formatters_on_empty:
  "(\<exists>ps. splitPieces s = ps \<and> length (concat ps) \<le> length s) \<and>
   splitPieces [] = [] \<and>
   ((\<forall>c\<in>set s. isDelimiter c) \<longrightarrow> splitPieces s = []) \<and>
   camelCase (Str []) = Inr [] \<and> snakeCase (Str []) = Inr [] \<and>
   kebabCase (Str []) = Inr [] \<and> titleCase (Str []) = Inr [] \<and>
   pascalCase (Str []) = Inr [] \<and> constantCase (Str []) = Inr []"
proof -
  have e: "splitPieces [] = []"
    by (simp add: splitPieces_def matchAll_Nil)
  have "length (concat (splitPieces s)) \<le> length s"
    by (simp add: splitPieces_def matchAll_concat)
  moreover have "(\<forall>c\<in>set s. isDelimiter c) \<longrightarrow> splitPieces s = []"
    by (simp add: splitPieces_def matchAll_delimiters)
  ultimately show ?thesis
    using e
    by (simp add: camelCase_def snakeCase_def kebabCase_def titleCase_def pascalCase_def
        constantCase_def piecesOf_def)
qed

theorem splitPieces_and_formatters_on_empty_witness:
  "list_all isDelimiter ''_ -- __ '' \<and> splitPieces ''_ -- __ '' = []"
proof -
  have h: "\<forall>c\<in>set ''_ -- __ ''. isDelimiter c"
    by (simp add: isDelimiter_def)
  show ?thesis
    using h splitPieces_and_formatters_on_empty [of "''_ -- __ ''"]
    by (simp only: list_all_iff)
qed

text \<open>
  Claim C8. For every sequence \<open>p\<close> of non-empty pieces made of lowercase letters only,
  none of them a delimiter, splitting \<^verbatim>\<open>kebabCase(p)\<close> gives \<open>p\<close> back.
\<close>

theorem kebabCase_round_trip:
  "(\<forall>s\<in>set p. s \<noteq> [] \<and> (\<forall>c\<in>set s. isLowercase c \<and> \<not> isDelimiter c)) \<longrightarrow>
   (\<exists>k. kebabCase (Arr p) = Inr k \<and> splitPieces k = p)"
proof
  assume h: "\<forall>s\<in>set p. s \<noteq> [] \<and> (\<forall>c\<in>set s. isLowercase c \<and> \<not> isDelimiter c)"
  then have nc: "\<forall>s\<in>set p. s \<noteq> [] \<and> (\<forall>c\<in>set s. notInClass c)"
    by (simp add: lowercase_notInClass)
  then have "\<forall>s\<in>set p. toLowerCase s = s"
    by (simp add: toLowerCase_no_Lu notInClass_iff)
  then have "map toLowerCase p = p"
    by (simp add: map_idI)
  then have "kebabCase (Arr p) = Inr (join ''-'' p)"
    by (simp add: kebabCase_def piecesOf_def)
  moreover have "splitPieces (join ''-'' p) = p"
    using nc by (simp add: splitPieces_def matchAll_join_dash)
  ultimately show "\<exists>k. kebabCase (Arr p) = Inr k \<and> splitPieces k = p"
    by blast
qed

theorem kebabCase_round_trip_witness:
  "list_all (\<lambda>s. s \<noteq> [] \<and> list_all (\<lambda>c. isLowercase c \<and> \<not> isDelimiter c) s)
     [''parse'', ''url'', ''x''] \<and>
   (\<exists>k. kebabCase (Arr [''parse'', ''url'', ''x'']) = Inr k \<and>
        splitPieces k = [''parse'', ''url'', ''x''])"
proof -
  have h: "\<forall>s\<in>set [''parse'', ''url'', ''x''].
             s \<noteq> [] \<and> (\<forall>c\<in>set s. isLowercase c \<and> \<not> isDelimiter c)"
    by (simp add: isLowercase_def isDelimiter_def)
  show ?thesis
    using h kebabCase_round_trip [of "[''parse'', ''url'', ''x'']"]
    by (simp only: list_all_iff)
qed

text \<open>
  Claim C9, as amended. For every sequence \<open>p\<close> of non-empty pieces made of ASCII
  characters, none of them an underscore, the uppercased result of
  \<^verbatim>\<open>camelCase(p)\<close> is \<^verbatim>\<open>constantCase(p)\<close> with its underscores removed.
\<close>

theorem camelCase_upper_is_constantCase_stripped:
  "(\<forall>s\<in>set p. s \<noteq> [] \<and> (\<forall>c\<in>set s. isAscii c \<and> c \<noteq> CHR ''_'')) \<longrightarrow>
   (\<exists>r k. camelCase (Arr p) = Inr r \<and> constantCase (Arr p) = Inr k \<and>
          toUpperCase r = stripUnderscores k)"
proof
  assume "\<forall>s\<in>set p. s \<noteq> [] \<and> (\<forall>c\<in>set s. isAscii c \<and> c \<noteq> CHR ''_'')"
  then have h: "\<forall>s\<in>set p. CHR ''_'' \<notin> set s"
    by blast
  have c: "camelCase (Arr p) = Inr (camelSpec p)"
    by (rule camelCase_Arr)
  have k: "constantCase (Arr p) = Inr (join ''_'' (map toUpperCase p))"
    by (simp add: constantCase_def piecesOf_def)
  have "stripUnderscores (join ''_'' (map toUpperCase p)) = concat (map toUpperCase p)"
    using h by (simp add: strip_join)
  then have "toUpperCase (camelSpec p) = stripUnderscores (join ''_'' (map toUpperCase p))"
    by (simp add: toUpperCase_camelSpec)
  then show "\<exists>r k. camelCase (Arr p) = Inr r \<and> constantCase (Arr p) = Inr k \<and>
          toUpperCase r = stripUnderscores k"
    using c k by blast
qed

theorem camelCase_upper_is_constantCase_stripped_witness:
  "list_all (\<lambda>s. s \<noteq> [] \<and> list_all (\<lambda>c. isAscii c \<and> c \<noteq> CHR ''_'') s)
     [''parse'', ''URL'', ''fooBar''] \<and>
   (\<exists>r k. camelCase (Arr [''parse'', ''URL'', ''fooBar'']) = Inr r \<and>
          constantCase (Arr [''parse'', ''URL'', ''fooBar'']) = Inr k \<and>
          toUpperCase r = stripUnderscores k)"
proof -
  have h: "\<forall>s\<in>set [''parse'', ''URL'', ''fooBar''].
             s \<noteq> [] \<and> (\<forall>c\<in>set s. isAscii c \<and> c \<noteq> CHR ''_'')"
    by (simp add: isAscii_def)
  show ?thesis
    using h camelCase_upper_is_constantCase_stripped [of "[''parse'', ''URL'', ''fooBar'']"]
    by (simp only: list_all_iff)
qed

text \<open>
  Claim C9 as the specification states it, for every sequence of non-empty pieces,
  fails on a piece with an underscore: \<^verbatim>\<open>camelCase\<close> keeps the underscore of the
  piece, and stripping \<^verbatim>\<open>constantCase\<close> removes it. The piece is made of ASCII
  characters.
\<close>

theorem camelCase_underscore_counterexample:
  "''a_b'' \<noteq> [] \<and> list_all isAscii ''a_b'' \<and>
   camelCase (Arr [''a_b'']) = Inr ''a_b'' \<and>
   constantCase (Arr [''a_b'']) = Inr ''A_B'' \<and>
   toUpperCase ''a_b'' = ''A_B'' \<and>
   stripUnderscores ''A_B'' = ''AB''"
proof (intro conjI)
  show "camelCase (Arr [''a_b'']) = Inr ''a_b''" by code_simp
  show "constantCase (Arr [''a_b'']) = Inr ''A_B''" by code_simp
  show "toUpperCase ''a_b'' = ''A_B''" by code_simp
  show "stripUnderscores ''A_B'' = ''AB''" by code_simp
qed (simp_all add: isAscii_def)

text \<open>
  Claim C10. Each of the six formatters returns a string for every array of strings,
  arrays with empty strings included. In \<^verbatim>\<open>camelCase\<close>, \<^verbatim>\<open>titleCase\<close> and
  \<^verbatim>\<open>pascalCase\<close> the comparison of the piece with its uppercase form comes before
  the access to the first character; the empty string equals its uppercase form, so it
  is returned as it is and the access is not made on it.
\<close>

theorem formatters_total_on_arrays:
  "(\<exists>r. camelCase (Arr p) = Inr r) \<and> (\<exists>r. snakeCase (Arr p) = Inr r) \<and>
   (\<exists>r. kebabCase (Arr p) = Inr r) \<and> (\<exists>r. titleCase (Arr p) = Inr r) \<and>
   (\<exists>r. pascalCase (Arr p) = Inr r) \<and> (\<exists>r. constantCase (Arr p) = Inr r) \<and>
   toUpperCase [] = [] \<and> camelPiece [] i = Inr [] \<and> upperPiece [] i = Inr [] \<and>
   camelCase (Arr [''a'', [], ''b'']) = Inr ''aB'' \<and>
   titleCase (Arr [''a'', [], ''b'']) = Inr ''A  B'' \<and>
   pascalCase (Arr [[], ''a'']) = Inr ''A''"
proof (intro conjI)
  show "camelCase (Arr [''a'', [], ''b'']) = Inr ''aB''" by code_simp
  show "titleCase (Arr [''a'', [], ''b'']) = Inr ''A  B''" by code_simp
  show "pascalCase (Arr [[], ''a'']) = Inr ''A''" by code_simp
  show "camelPiece [] i = Inr []"
    by (simp add: camelPiece_def toUpperCase_def toLowerCase_def)
  show "upperPiece [] i = Inr []"
    by (simp add: upperPiece_def toUpperCase_def)
qed (simp_all add: camelCase_Arr titleCase_Arr pascalCase_Arr snakeCase_def kebabCase_def
    constantCase_def toUpperCase_def)

end
